theory Spec2Isabelle
  imports Complex_Main
begin

section \<open>Gate trees\<close>

text \<open>
  The initializer of \<^verbatim>\<open>_initializer.py\<close> builds and rewrites a tree of gates.  A leaf is a
  \<^verbatim>\<open>Gate\<close> object with a name, a parameter list and a list of qubit arguments; an inner
  node is a \<^verbatim>\<open>CompositeGate\<close> whose \<^verbatim>\<open>data\<close> field is the ordered list of its
  children.  The tree is strict (no child is shared), so the in-place list updates of the
  source are modelled by functions returning the updated child list.  Floating point
  numbers are modelled by the reals.  Qubits are values of an arbitrary type.
\<close>

datatype error = IndexError | ValueError | QiskitError string

datatype 'q gate_node =
    is_Gate: Gate (name: string) (params: "real list") (qargs: "'q list")
  | is_CompositeGate: CompositeGate (name: string) (data: "'q gate_node list")

text \<open>
  The standard gates the initializer emits.  Their classes live in
  \<^verbatim>\<open>qiskit.extensions.standard\<close>; the optimizer recognises them by the names
  \<^verbatim>\<open>rz\<close>, \<^verbatim>\<open>ry\<close>, \<^verbatim>\<open>rx\<close> and \<^verbatim>\<open>cx\<close>.
\<close>

definition RZGate :: "real \<Rightarrow> 'q \<Rightarrow> 'q gate_node" where
  \<comment> \<open>Modelled from the spec: the single-qubit Z-axis rotation leaf of
      \<^verbatim>\<open>qiskit.extensions.standard.rz\<close>, one angle and one target qubit.\<close>
  "RZGate phi q = Gate ''rz'' [phi] [q]"

definition RYGate :: "real \<Rightarrow> 'q \<Rightarrow> 'q gate_node" where
  \<comment> \<open>Modelled from the spec: the single-qubit Y-axis rotation leaf of
      \<^verbatim>\<open>qiskit.extensions.standard.ry\<close>, one angle and one target qubit.\<close>
  "RYGate theta q = Gate ''ry'' [theta] [q]"

definition CnotGate :: "'q \<Rightarrow> 'q \<Rightarrow> 'q gate_node" where
  \<comment> \<open>Modelled from the spec: the controlled-NOT leaf of
      \<^verbatim>\<open>qiskit.extensions.standard.cx\<close>, carrying its control and its target qubit.\<close>
  "CnotGate ctl tgt = Gate ''cx'' [] [ctl, tgt]"

definition U3Gate :: "real \<Rightarrow> real \<Rightarrow> real \<Rightarrow> 'q \<Rightarrow> 'q gate_node" where
  \<comment> \<open>Modelled from the spec: the general single-qubit gate of
      \<^verbatim>\<open>qiskit.extensions.standard.u3\<close>, used only by the global phase helper.\<close>
  "U3Gate theta phi lam q = Gate ''u3'' [theta, phi, lam] [q]"

definition XGate :: "'q \<Rightarrow> 'q gate_node" where
  \<comment> \<open>Modelled from the spec: the Pauli X gate of \<^verbatim>\<open>qiskit.extensions.standard.x\<close>.\<close>
  "XGate q = Gate ''x'' [] [q]"

subsection \<open>Chopping small numbers\<close>

definition EPS :: real where
  "EPS = 1 / 10 ^ 10"

definition chop_num :: "real \<Rightarrow> real" where
  "chop_num numb = (if \<bar>numb\<bar> < EPS then 0 else numb)"

subsection \<open>Order reversal\<close>

text \<open>
  \<^verbatim>\<open>reverse\<close> walks \<^verbatim>\<open>reversed(self.data)\<close> and reverses every composite child in turn;
  leaves are kept as they are.
\<close>

fun reverse :: "'q gate_node \<Rightarrow> 'q gate_node" where
  "reverse (CompositeGate nm d) = CompositeGate nm (map reverse (rev d))"
| "reverse (Gate nm ps qs) = Gate nm ps qs"

subsection \<open>Zero-rotation elimination\<close>

text \<open>
  The pass rebuilds \<^verbatim>\<open>self.data\<close> from left to right and returns whether a leaf was
  removed.  Reading \<^verbatim>\<open>gate.params[0]\<close> of a rotation without parameters raises
  \<^verbatim>\<open>IndexError\<close>.  Every leaf of the model is a \<^verbatim>\<open>Gate\<close>.
\<close>

fun remove_zero_rotations :: "'q gate_node list \<Rightarrow> error + (bool \<times> 'q gate_node list)" where
  "remove_zero_rotations [] = Inr (False, [])"
| "remove_zero_rotations (CompositeGate nm d # gs) =
     (case remove_zero_rotations d of
        Inl e \<Rightarrow> Inl e
      | Inr (r, d') \<Rightarrow>
          (case remove_zero_rotations gs of
             Inl e \<Rightarrow> Inl e
           | Inr (r', gs') \<Rightarrow>
               Inr (r \<or> r', if d' \<noteq> [] then CompositeGate nm d' # gs' else gs')))"
| "remove_zero_rotations (Gate nm ps qs # gs) =
     (if \<not> (nm = ''rz'' \<or> nm = ''ry'' \<or> nm = ''rx'') then
        (case remove_zero_rotations gs of
           Inl e \<Rightarrow> Inl e
         | Inr (r', gs') \<Rightarrow> Inr (r', Gate nm ps qs # gs'))
      else
        (case ps of
           [] \<Rightarrow> Inl IndexError
         | p # _ \<Rightarrow>
             if chop_num p \<noteq> 0 then
               (case remove_zero_rotations gs of
                  Inl e \<Rightarrow> Inl e
                | Inr (r', gs') \<Rightarrow> Inr (r', Gate nm ps qs # gs'))
             else
               (case remove_zero_rotations gs of
                  Inl e \<Rightarrow> Inl e
                | Inr (r', gs') \<Rightarrow> Inr (True, gs'))))"

fun number_atomic_gates :: "'q gate_node list \<Rightarrow> nat" where
  "number_atomic_gates [] = 0"
| "number_atomic_gates (CompositeGate nm d # gs) = number_atomic_gates d + number_atomic_gates gs"
| "number_atomic_gates (Gate nm ps qs # gs) = 1 + number_atomic_gates gs"

subsection \<open>Edge leaves of a composite\<close>

text \<open>
  \<^verbatim>\<open>first_atomic_gate_host\<close> and \<^verbatim>\<open>last_atomic_gate_host\<close> return the child list that
  holds the leaf on the left or right edge, or \<^verbatim>\<open>None\<close> when the chain of first (last)
  children ends in a childless composite.  The source deletes the edge leaf through the
  returned list object; \<open>del_first_atomic_gate\<close> and \<open>del_last_atomic_gate\<close> are that
  deletion, written as an update of the tree along the same chain.
\<close>

fun first_atomic_gate_host :: "'q gate_node list \<Rightarrow> 'q gate_node list option" where
  "first_atomic_gate_host [] = None"
| "first_atomic_gate_host (CompositeGate nm d # gs) = first_atomic_gate_host d"
| "first_atomic_gate_host (Gate nm ps qs # gs) = Some (Gate nm ps qs # gs)"

function last_atomic_gate_host :: "'q gate_node list \<Rightarrow> 'q gate_node list option" where
  "last_atomic_gate_host dat =
     (if dat = [] then None
      else (case last dat of
              CompositeGate nm d \<Rightarrow> last_atomic_gate_host d
            | Gate nm ps qs \<Rightarrow> Some dat))"
  by pat_completeness auto
termination
proof (relation "measure (size_list size)")
  show "wf (measure (size_list size))" by simp
next
  fix dat :: "'q gate_node list" and nm d
  assume ne: "dat \<noteq> []" and l: "last dat = CompositeGate nm d"
  from ne have "last dat \<in> set dat" by simp
  then have "size (last dat) \<le> size_list size dat"
    by (rule size_list_estimation') simp
  with l show "(d, dat) \<in> measure (size_list size)" by simp
qed


fun del_first_atomic_gate :: "'q gate_node list \<Rightarrow> 'q gate_node list" where
  "del_first_atomic_gate [] = []"
| "del_first_atomic_gate (CompositeGate nm d # gs) = CompositeGate nm (del_first_atomic_gate d) # gs"
| "del_first_atomic_gate (Gate nm ps qs # gs) = gs"

function del_last_atomic_gate :: "'q gate_node list \<Rightarrow> 'q gate_node list" where
  "del_last_atomic_gate dat =
     (if dat = [] then []
      else (case last dat of
              CompositeGate nm d \<Rightarrow> butlast dat @ [CompositeGate nm (del_last_atomic_gate d)]
            | Gate nm ps qs \<Rightarrow> butlast dat))"
  by pat_completeness auto
termination
proof (relation "measure (size_list size)")
  show "wf (measure (size_list size))" by simp
next
  fix dat :: "'q gate_node list" and nm d
  assume ne: "dat \<noteq> []" and l: "last dat = CompositeGate nm d"
  from ne have "last dat \<in> set dat" by simp
  then have "size (last dat) \<le> size_list size dat"
    by (rule size_list_estimation') simp
  with l show "(d, dat) \<in> measure (size_list size)" by simp
qed

subsection \<open>Double-CNOT cancellation\<close>

text \<open>
  One iteration of the loop body of \<^verbatim>\<open>remove_double_cnots_once\<close> at index \<open>i\<close>:
  \<open>g\<close> is \<^verbatim>\<open>self.data[i]\<close> and \<open>right\<close> is \<^verbatim>\<open>self.data[i + 1:]\<close>.  \<open>left_gate\<close> is
  \<^verbatim>\<open>left_gate_host[left_gate_index]\<close> when the host is not \<^verbatim>\<open>None\<close>, \<open>right_gate\<close>
  likewise.  Reading \<^verbatim>\<open>self.data[i + 1]\<close> raises \<^verbatim>\<open>IndexError\<close> when earlier deletions
  have emptied the list to the right of \<open>i\<close>.
\<close>

definition left_gate :: "'q gate_node \<Rightarrow> 'q gate_node option" where
  "left_gate g =
     (case g of
        CompositeGate nm d \<Rightarrow> map_option last (last_atomic_gate_host d)
      | Gate nm ps qs \<Rightarrow> Some g)"

definition right_gate :: "'q gate_node \<Rightarrow> 'q gate_node option" where
  "right_gate g =
     (case g of
        CompositeGate nm d \<Rightarrow> map_option hd (first_atomic_gate_host d)
      | Gate nm ps qs \<Rightarrow> Some g)"

definition del_left_gate :: "'q gate_node \<Rightarrow> 'q gate_node list" where
  "del_left_gate g =
     (case g of
        CompositeGate nm d \<Rightarrow> [CompositeGate nm (del_last_atomic_gate d)]
      | Gate nm ps qs \<Rightarrow> [])"

definition del_right_gate :: "'q gate_node \<Rightarrow> 'q gate_node list" where
  "del_right_gate g =
     (case g of
        CompositeGate nm d \<Rightarrow> [CompositeGate nm (del_first_atomic_gate d)]
      | Gate nm ps qs \<Rightarrow> [])"

definition cancel_at :: "'q gate_node \<Rightarrow> 'q gate_node list \<Rightarrow> bool \<Rightarrow> error + (bool \<times> 'q gate_node list)" where
  "cancel_at g right removed =
     (case left_gate g of
        None \<Rightarrow> Inr (removed, g # right)
      | Some l \<Rightarrow>
          if name l \<noteq> ''cx'' then Inr (removed, g # right)
          else (case right of
                  [] \<Rightarrow> Inl IndexError
                | s # ss \<Rightarrow>
                    (case right_gate s of
                       None \<Rightarrow> Inr (removed, g # right)
                     | Some r \<Rightarrow>
                         if name r = ''cx'' \<and> qargs l = qargs r
                         then Inr (True, del_left_gate g @ del_right_gate s @ ss)
                         else Inr (removed, g # right))))"

text \<open>
  The pass itself.  \<open>cnot_scan left right removed\<close> is the \<^verbatim>\<open>for\<close> loop running \<open>i\<close>
  downwards: \<open>left\<close> holds \<^verbatim>\<open>self.data[0..i]\<close> in reverse order and \<open>right\<close> the part of
  \<^verbatim>\<open>self.data\<close> behind index \<open>i\<close>.  Because of the short-circuit \<^verbatim>\<open>or\<close>, a composite child
  is only descended into while nothing has been removed yet.
\<close>

function remove_double_cnots_once :: "'q gate_node list \<Rightarrow> error + (bool \<times> 'q gate_node list)"
  and cnot_scan :: "'q gate_node list \<Rightarrow> 'q gate_node list \<Rightarrow> bool \<Rightarrow> error + (bool \<times> 'q gate_node list)"
where
  "remove_double_cnots_once dat =
     (if dat = [] then Inr (False, [])
      else if length dat = 1 \<and> is_CompositeGate (dat ! 0) then
        (case remove_double_cnots_once (data (dat ! 0)) of
           Inl e \<Rightarrow> Inl e
         | Inr (r, d') \<Rightarrow> Inr (r, [CompositeGate (name (dat ! 0)) d']))
      else
        (case last dat of
           CompositeGate nm d \<Rightarrow>
             (case remove_double_cnots_once d of
                Inl e \<Rightarrow> Inl e
              | Inr (r, d') \<Rightarrow> cnot_scan (rev (butlast dat)) [CompositeGate nm d'] r)
         | Gate nm ps qs \<Rightarrow> cnot_scan (rev (butlast dat)) [Gate nm ps qs] False))"
| "cnot_scan left right removed =
     (case left of
        [] \<Rightarrow> Inr (removed, right)
      | g # rest \<Rightarrow>
          (case (case g of
                   CompositeGate nm d \<Rightarrow>
                     if removed then Inr (True, g)
                     else (case remove_double_cnots_once d of
                             Inl e \<Rightarrow> Inl e
                           | Inr (r, d') \<Rightarrow> Inr (r, CompositeGate nm d'))
                 | Gate nm ps qs \<Rightarrow> Inr (removed, g)) of
             Inl e \<Rightarrow> Inl e
           | Inr (removed', g') \<Rightarrow>
               (case cancel_at g' right removed' of
                  Inl e \<Rightarrow> Inl e
                | Inr (removed'', right') \<Rightarrow> cnot_scan rest right' removed'')))"
  by pat_completeness auto
termination
proof -
  have sz_rev: "size_list size (rev xs) = size_list size xs" for xs :: "'q gate_node list"
    by (induction xs) simp_all
  have sz_butlast: "size_list size (butlast xs) \<le> size_list size xs" for xs :: "'q gate_node list"
    by (induction xs) simp_all
  have sz_last: "size_list size d < size_list size xs"
    if "xs \<noteq> []" "last xs = CompositeGate nm d" for xs :: "'q gate_node list" and nm d
  proof -
    from that(1) have "last xs \<in> set xs" by simp
    then have "size (last xs) \<le> size_list size xs"
      by (rule size_list_estimation') simp
    with that(2) show ?thesis by simp
  qed
  have sz_single: "size_list size (data (xs ! 0)) < size_list size xs"
    if "length xs = 1" "is_CompositeGate (xs ! 0)" for xs :: "'q gate_node list"
  proof -
    from that obtain nm d where "xs = [CompositeGate nm d]"
      by (cases xs) (auto simp: gate_node.disc_eq_case split: gate_node.splits)
    then show ?thesis by simp
  qed
  show ?thesis
    apply (relation "measure (\<lambda>x. case x of
            Inl dat \<Rightarrow> 2 * size_list size dat + 1
          | Inr (left, right, removed) \<Rightarrow> 2 * size_list size left)")
       apply simp_all
    subgoal for dat using sz_single [of dat] by simp
    subgoal for dat using sz_butlast [of dat] by (simp add: sz_rev)
    subgoal for dat nm d using sz_last [of dat nm d] by simp
    subgoal for dat using sz_butlast [of dat] by (simp add: sz_rev)
    done
qed


declare last_atomic_gate_host.simps [simp del]
declare del_last_atomic_gate.simps [simp del]
declare remove_double_cnots_once.simps [simp del]
declare cnot_scan.simps [simp del]

partial_function (option) cnot_fixpoint :: "'q gate_node list \<Rightarrow> (error + 'q gate_node list) option" where
  "cnot_fixpoint dat =
     (case remove_double_cnots_once dat of
        Inl e \<Rightarrow> Some (Inl e)
      | Inr (removed, dat') \<Rightarrow> if removed then cnot_fixpoint dat' else Some (Inr dat'))"

declare cnot_fixpoint.simps [code]

definition optimize_gates :: "'q gate_node list \<Rightarrow> (error + 'q gate_node list) option" where
  "optimize_gates dat =
     (case remove_zero_rotations dat of
        Inl e \<Rightarrow> Some (Inl e)
      | Inr (removed, dat') \<Rightarrow> cnot_fixpoint dat')"

section \<open>Synthesis\<close>

subsection \<open>Library functions\<close>

text \<open>
  \<^verbatim>\<open>math.log2\<close> raises \<^verbatim>\<open>ValueError\<close> at 0.  \<^verbatim>\<open>np.identity\<close>, \<^verbatim>\<open>scipy.kron\<close> and the
  product of a matrix with a vector (\<^verbatim>\<open>dot\<close>) work on matrices as lists of rows; the
  product raises \<^verbatim>\<open>ValueError\<close> when a row is not as long as the vector.
  \<^verbatim>\<open>math.isclose(a, b, rel_tol, abs_tol)\<close> is
  \<^verbatim>\<open>abs(a - b) <= max(rel_tol * max(abs(a), abs(b)), abs_tol)\<close>; the source passes
  \<^verbatim>\<open>abs_tol\<close> only, so \<^verbatim>\<open>rel_tol\<close> has its default \<^verbatim>\<open>1e-09\<close>.  \<^verbatim>\<open>np.absolute\<close> is
  \<open>cmod\<close> and \<^verbatim>\<open>np.angle\<close> is the principal argument \<open>Arg\<close>, which is 0 at 0.
\<close>

definition math_log2 :: "nat \<Rightarrow> error + real" where
  "math_log2 n = (if n = 0 then Inl ValueError else Inr (log 2 (real n)))"

definition identity :: "nat \<Rightarrow> real list list" where
  "identity n = map (\<lambda>i. map (\<lambda>j. if i = j then 1 else 0) [0..<n]) [0..<n]"

definition kron :: "real list list \<Rightarrow> real list list \<Rightarrow> real list list" where
  "kron A B = concat (map (\<lambda>ra. map (\<lambda>rb. concat (map (\<lambda>a. map (\<lambda>b. a * b) rb) ra)) B) A)"

definition dot :: "real list list \<Rightarrow> real list \<Rightarrow> error + real list" where
  "dot M v =
     (if list_all (\<lambda>row. length row = length v) M
      then Inr (map (\<lambda>row. sum_list (map2 (*) row v)) M)
      else Inl ValueError)"

definition isclose :: "real \<Rightarrow> real \<Rightarrow> real \<Rightarrow> real \<Rightarrow> bool" where
  "isclose a b rel_tol abs_tol = (\<bar>a - b\<bar> \<le> max (rel_tol * max \<bar>a\<bar> \<bar>b\<bar>) abs_tol)"

subsection \<open>Angle extraction and disentangling\<close>



subsection \<open>Multiplexed rotations\<close>

text \<open>
  \<^verbatim>\<open>_multiplex\<close> reads the fields \<^verbatim>\<open>self.num_qubits\<close> and \<^verbatim>\<open>self.qargs\<close>, which are the
  first two arguments here.  \<open>str_nat\<close> is the decimal \<^verbatim>\<open>__str__\<close> of a natural number.
\<close>

definition nth_qubit_from_least_sig_qubit :: "'q list \<Rightarrow> nat \<Rightarrow> error + 'q" where
  "nth_qubit_from_least_sig_qubit qs n =
     (if n < length qs then Inr (qs ! n) else Inl IndexError)"

fun str_nat :: "nat \<Rightarrow> string" where
  "str_nat n =
     (if n < 10 then [char_of (48 + n)]
      else str_nat (n div 10) @ [char_of (48 + n mod 10)])"

declare str_nat.simps [simp del]

function multiplex ::
  "nat \<Rightarrow> 'q list \<Rightarrow> (real \<Rightarrow> 'q \<Rightarrow> 'q gate_node) \<Rightarrow> nat \<Rightarrow> real list \<Rightarrow> error + 'q gate_node"
where
  "multiplex num_qubits qs bottom_gate bottom_qubit_index list_of_angles =
     (let list_len = length list_of_angles in
      (case nth_qubit_from_least_sig_qubit qs bottom_qubit_index of
         Inl e \<Rightarrow> Inl e
       | Inr target_qubit \<Rightarrow>
           if list_len = 1 then Inr (bottom_gate (list_of_angles ! 0) target_qubit)
           else
             (case math_log2 list_len of
                Inl e \<Rightarrow> Inl e
              | Inr l \<Rightarrow>
                  (let local_num_qubits = nat \<lfloor>l\<rfloor> + 1 in
                   (case nth_qubit_from_least_sig_qubit qs
                           (local_num_qubits - 1 + bottom_qubit_index) of
                      Inl e \<Rightarrow> Inl e
                    | Inr control_qubit \<Rightarrow>
                        (case dot (kron [[1/2, 1/2], [1/2, - 1/2]]
                                     (identity (2 ^ (local_num_qubits - 2))))
                                  list_of_angles of
                           Inl e \<Rightarrow> Inl e
                         | Inr combo \<Rightarrow>
                             (case multiplex num_qubits qs bottom_gate bottom_qubit_index
                                     (take (list_len div 2) combo) of
                                Inl e \<Rightarrow> Inl e
                              | Inr low \<Rightarrow>
                                  (case multiplex num_qubits qs bottom_gate bottom_qubit_index
                                          (drop (list_len div 2) combo) of
                                     Inl e \<Rightarrow> Inl e
                                   | Inr sub_gate \<Rightarrow>
                                       Inr (CompositeGate
                                             (''multiplex'' @ str_nat local_num_qubits)
                                             ([low, CnotGate control_qubit target_qubit,
                                               reverse sub_gate] @
                                              (if num_qubits = local_num_qubits + bottom_qubit_index
                                               then [CnotGate control_qubit target_qubit]
                                               else [])))))))))))"
  by pat_completeness auto
termination
proof -
  have len_dot: "length r = length M \<and> (\<forall>row\<in>set M. length row = length v)"
    if "dot M v = Inr r" for M v r
    using that by (auto simp: dot_def list_all_iff split: if_splits)
  have len_kron: "length (kron [ra, rb] B) = 2 * length B" for ra rb B
    by (simp add: kron_def)
  have row_kron: "length row = 2 * n"
    if "row \<in> set (kron [[a, b], [c, d]] (identity n))" for row a b c d n
    using that by (auto simp: kron_def identity_def)
  have combo_len: "length combo = length v"
    if "dot (kron [[a, b], [c, d]] (identity (2 ^ k))) v = Inr combo" for a b c d k v combo
  proof -
    let ?M = "kron [[a, b], [c, d]] (identity (2 ^ k))"
    from len_dot [OF that] have l: "length combo = length ?M"
      and rows: "\<forall>row\<in>set ?M. length row = length v" by simp_all
    have lm: "length ?M = 2 * 2 ^ k" by (simp add: len_kron identity_def)
    then have "?M \<noteq> []" by auto
    then obtain row where "row \<in> set ?M" by (cases ?M) auto
    with rows row_kron [of row a b c d "2 ^ k"] have "length v = 2 * 2 ^ k" by auto
    with l lm show ?thesis by simp
  qed
  have half': "n - n div 2 < n" if "n \<noteq> 0" "n \<noteq> Suc 0" for n :: nat
    using that by arith
  have half: "m < n" if "m \<le> n div 2" "n \<noteq> 0" for m n :: nat
    using that by arith
  show ?thesis
    apply (relation "measure (\<lambda>(n, qs, bg, b, xs). length xs)")
      apply simp_all
    subgoal for qs b xs
      by (auto simp: math_log2_def min_def split: if_splits intro: half)
    subgoal for n qs bg b xs x t l x' c combo
      using combo_len [of "1/2" "1/2" "1/2" "- (1/2)" "nat \<lfloor>l\<rfloor> - Suc 0" xs combo]
      by (auto simp: math_log2_def split: if_splits intro: half')
    done
qed

declare multiplex.simps [simp del]

subsection \<open>The initializer\<close>




text \<open>
  The constructor of \<^verbatim>\<open>InitializeGate\<close>.  The result is \<open>None\<close> only if the optimizer loop
  does not end.
\<close>

record 'q initialize_gate =
  num_qubits :: nat
  gate_data :: "'q gate_node list"
  global_phase :: complex


subsection \<open>The global phase gate\<close>

definition GlobalPhaseGate :: "complex list \<Rightarrow> 'q list \<Rightarrow> error + 'q gate_node list" where
  "GlobalPhaseGate ps qs =
     (if length qs = 0 then Inl (QiskitError ''Need at least one qubit.'')
      else if length ps \<noteq> 1 then
        Inl (QiskitError ''Global Phase takes a list of one and only one parameter.'')
      else if \<not> isclose (cmod (ps ! 0)) 1 (1 / 10 ^ 9) EPS then
        Inl (QiskitError ''Phase not of unit length'')
      else
        (let phase = Arg (ps ! 0) in
         Inr [U3Gate pi phase (pi + phase) (qs ! 0), XGate (qs ! 0)]))"


section \<open>Observations on gate trees\<close>

text \<open>
  The leaf gates of a child list in circuit order, read as \<^verbatim>\<open>number_atomic_gates\<close> walks
  the tree.
\<close>

fun leaves :: "'q gate_node list \<Rightarrow> 'q gate_node list" where
  "leaves [] = []"
| "leaves (CompositeGate nm d # gs) = leaves d @ leaves gs"
| "leaves (Gate nm ps qs # gs) = Gate nm ps qs # leaves gs"

text \<open>
  One cancellation on a leaf sequence: two neighbouring leaves named \<^verbatim>\<open>cx\<close> with the same
  qubit arguments disappear, everything else stays where it is.
\<close>

inductive cancel_step :: "'q gate_node list \<Rightarrow> 'q gate_node list \<Rightarrow> bool" where
  "name a = ''cx'' \<Longrightarrow> name b = ''cx'' \<Longrightarrow> qargs a = qargs b \<Longrightarrow>
   cancel_step (xs @ a # b # ys) (xs @ ys)"

text \<open>
  A rotation leaf whose angle is chopped to zero, a tree in which every rotation leaf
  carries its angle, and a tree in which no composite child is childless.
\<close>

definition rotation_name :: "string \<Rightarrow> bool" where
  "rotation_name nm = (nm = ''rz'' \<or> nm = ''ry'' \<or> nm = ''rx'')"

definition zero_rotation :: "'q gate_node \<Rightarrow> bool" where
  "zero_rotation g =
     (rotation_name (name g) \<and> (case params g of [] \<Rightarrow> False | p # _ \<Rightarrow> \<bar>p\<bar> < EPS))"

fun well_formed :: "'q gate_node list \<Rightarrow> bool" where
  "well_formed [] = True"
| "well_formed (CompositeGate nm d # gs) = (well_formed d \<and> well_formed gs)"
| "well_formed (Gate nm ps qs # gs) = ((\<not> rotation_name nm \<or> ps \<noteq> []) \<and> well_formed gs)"

fun no_childless :: "'q gate_node list \<Rightarrow> bool" where
  "no_childless [] = True"
| "no_childless (CompositeGate nm d # gs) = (d \<noteq> [] \<and> no_childless d \<and> no_childless gs)"
| "no_childless (Gate nm ps qs # gs) = no_childless gs"

definition angle_kept :: "'q gate_node \<Rightarrow> bool" where
  "angle_kept g = (\<not> zero_rotation g \<and> (\<not> rotation_name (name g) \<or> params g \<noteq> []))"

text \<open>
  The first step of an iteration of \<open>cnot_scan\<close>: the descent into a composite child,
  skipped once something has been removed.
\<close>

definition descend :: "'q gate_node \<Rightarrow> bool \<Rightarrow> error + (bool \<times> 'q gate_node)" where
  "descend g removed =
     (case g of
        CompositeGate nm d \<Rightarrow>
          if removed then Inr (True, g)
          else (case remove_double_cnots_once d of
                  Inl e \<Rightarrow> Inl e
                | Inr (r, d') \<Rightarrow> Inr (r, CompositeGate nm d'))
      | Gate nm ps qs \<Rightarrow> Inr (removed, g))"


text \<open>
  The sum/difference split of an angle list as the specification words it: the first half
  of the result holds the pairwise half-sums of the two halves of the list, the second
  half the pairwise half-differences.
\<close>

definition sum_difference_split :: "real list \<Rightarrow> real list" where
  "sum_difference_split xs =
     (let h = length xs div 2; lo = take h xs; hi = drop h xs
      in map2 (\<lambda>a b. (a + b) / 2) lo hi @ map2 (\<lambda>a b. (a - b) / 2) lo hi)"




section \<open>Properties of the double-CNOT pass\<close>

lemma leaves_append: "leaves (xs @ ys) = leaves xs @ leaves ys"
  by (induction xs rule: leaves.induct) simp_all

lemma leaves_snoc_Gate: "leaves (xs @ [Gate nm ps qs]) = leaves xs @ [Gate nm ps qs]"
  by (simp add: leaves_append)

lemma leaves_rev_Cons: "leaves (rev (g # rest) @ right) = leaves (rev rest) @ leaves (g # right)"
  by (simp add: leaves_append)

lemma number_atomic_gates_leaves: "number_atomic_gates dat = length (leaves dat)"
  by (induction dat rule: leaves.induct) simp_all

lemma last_host_leaves:
  "last_atomic_gate_host d = Some h \<Longrightarrow> leaves d = leaves (del_last_atomic_gate d) @ [last h]"
proof (induction d arbitrary: h rule: last_atomic_gate_host.induct)
  case (1 dat)
  from "1.prems" have ne: "dat \<noteq> []"
    by (auto simp: last_atomic_gate_host.simps [of dat] split: if_splits)
  then have split: "dat = butlast dat @ [last dat]" by simp
  show ?case
  proof (cases "last dat")
    case (Gate nm ps qs)
    with "1.prems" ne have "h = dat"
      by (simp add: last_atomic_gate_host.simps [of dat])
    moreover from Gate ne have "del_last_atomic_gate dat = butlast dat"
      by (simp add: del_last_atomic_gate.simps [of dat])
    moreover from split Gate have "leaves dat = leaves (butlast dat) @ [last dat]"
      by (metis leaves_snoc_Gate)
    ultimately show ?thesis by simp
  next
    case (CompositeGate nm d)
    with "1.prems" ne have "last_atomic_gate_host d = Some h"
      by (simp add: last_atomic_gate_host.simps [of dat])
    with "1.IH" [OF ne CompositeGate] have ih: "leaves d = leaves (del_last_atomic_gate d) @ [last h]"
      by simp
    from CompositeGate ne have del: "del_last_atomic_gate dat = butlast dat @ [CompositeGate nm (del_last_atomic_gate d)]"
      by (simp add: del_last_atomic_gate.simps [of dat])
    from split CompositeGate have "leaves dat = leaves (butlast dat) @ leaves d"
      by (metis leaves_append leaves.simps(1,2) append_Nil2)
    with ih del show ?thesis by (simp add: leaves_append)
  qed
qed

lemma first_host_leaves:
  "first_atomic_gate_host d = Some h \<Longrightarrow> leaves d = hd h # leaves (del_first_atomic_gate d)"
  by (induction d arbitrary: h rule: first_atomic_gate_host.induct) auto

lemma left_gate_leaves:
  "left_gate g = Some l \<Longrightarrow> leaves [g] = leaves (del_left_gate g) @ [l]"
  by (cases g) (auto simp: left_gate_def del_left_gate_def dest: last_host_leaves)

lemma right_gate_leaves:
  "right_gate g = Some r \<Longrightarrow> leaves [g] = r # leaves (del_right_gate g)"
  by (cases g) (auto simp: right_gate_def del_right_gate_def dest: first_host_leaves)

lemma leaves_Cons: "leaves (g # gs) = leaves [g] @ leaves gs"
  by (cases g) simp_all

lemma cancel_at_cases:
  assumes "cancel_at g right removed = Inr (b, out)"
  shows "(b = removed \<and> out = g # right) \<or> (b \<and> cancel_step (leaves (g # right)) (leaves out))"
proof (cases "\<exists>l s ss r. left_gate g = Some l \<and> name l = ''cx'' \<and> right = s # ss \<and>
          right_gate s = Some r \<and> name r = ''cx'' \<and> qargs l = qargs r")
  case True
  then obtain l s ss r where h: "left_gate g = Some l" "name l = ''cx''" "right = s # ss"
      "right_gate s = Some r" "name r = ''cx''" "qargs l = qargs r" by blast
  with assms have out: "b" "out = del_left_gate g @ del_right_gate s @ ss"
    by (simp_all add: cancel_at_def)
  have "leaves (g # right) = leaves (del_left_gate g) @ l # r # (leaves (del_right_gate s) @ leaves ss)"
    using h(3) left_gate_leaves [OF h(1)] right_gate_leaves [OF h(4)]
      leaves_Cons [of g right] leaves_Cons [of s ss] by simp
  moreover have "leaves out = leaves (del_left_gate g) @ (leaves (del_right_gate s) @ leaves ss)"
    using out by (simp add: leaves_append)
  ultimately show ?thesis
    using cancel_step.intros [OF h(2) h(5) h(6)] out(1) by metis
next
  case False
  with assms show ?thesis
    by (auto simp: cancel_at_def split: option.splits if_splits list.splits)
qed

lemma cancel_step_ctx: "cancel_step xs ys \<Longrightarrow> cancel_step (p @ xs @ q) (p @ ys @ q)"
proof (induction rule: cancel_step.induct)
  case (1 a b xs ys)
  from cancel_step.intros [OF 1, of "p @ xs" "ys @ q"] show ?case by simp
qed

lemma cancel_step_prefix: "cancel_step xs ys \<Longrightarrow> cancel_step (p @ xs) (p @ ys)"
  using cancel_step_ctx [of xs ys p "[]"] by simp

lemma cancel_rtrancl_ctx: "cancel_step\<^sup>*\<^sup>* xs ys \<Longrightarrow> cancel_step\<^sup>*\<^sup>* (p @ xs @ q) (p @ ys @ q)"
  by (induction rule: rtranclp_induct) (auto intro: cancel_step_ctx rtranclp.rtrancl_into_rtrancl)

lemma cancel_trancl_ctx: "cancel_step\<^sup>+\<^sup>+ xs ys \<Longrightarrow> cancel_step\<^sup>+\<^sup>+ (p @ xs @ q) (p @ ys @ q)"
  by (induction rule: tranclp_induct) (auto intro: cancel_step_ctx tranclp.trancl_into_trancl)

lemma single_composite:
  assumes "length dat = 1" "is_CompositeGate (dat ! 0)"
  shows "dat = [CompositeGate (name (dat ! 0)) (data (dat ! 0))]"
  using assms by (cases dat) (auto simp: gate_node.is_CompositeGate_def)

lemma rdco_Nil: "remove_double_cnots_once [] = Inr (False, [])"
  by (simp add: remove_double_cnots_once.simps)

lemma rdco_single:
  "remove_double_cnots_once [CompositeGate nm d] =
     (case remove_double_cnots_once d of
        Inl e \<Rightarrow> Inl e
      | Inr (r, d') \<Rightarrow> Inr (r, [CompositeGate nm d']))"
  by (subst remove_double_cnots_once.simps) (simp split: sum.splits)

lemma rdco_general:
  assumes "dat \<noteq> []" "\<not> (length dat = 1 \<and> is_CompositeGate (dat ! 0))"
  shows "remove_double_cnots_once dat =
     (case last dat of
        CompositeGate nm d \<Rightarrow>
          (case remove_double_cnots_once d of
             Inl e \<Rightarrow> Inl e
           | Inr (r, d') \<Rightarrow> cnot_scan (rev (butlast dat)) [CompositeGate nm d'] r)
      | Gate nm ps qs \<Rightarrow> cnot_scan (rev (butlast dat)) [Gate nm ps qs] False)"
  using assms by (subst remove_double_cnots_once.simps) auto

lemma cnot_scan_Nil: "cnot_scan [] right removed = Inr (removed, right)"
  by (simp add: cnot_scan.simps)

lemma cnot_scan_Cons:
  "cnot_scan (g # rest) right removed =
     (case descend g removed of
        Inl e \<Rightarrow> Inl e
      | Inr (removed', g') \<Rightarrow>
          (case cancel_at g' right removed' of
             Inl e \<Rightarrow> Inl e
           | Inr (removed'', right') \<Rightarrow> cnot_scan rest right' removed''))"
  by (simp add: cnot_scan.simps [of "g # rest"] descend_def)

lemma pass_invariant:
  "remove_double_cnots_once (dat :: 'q gate_node list) = Inr (b, dat') \<Longrightarrow>
     (b \<longrightarrow> cancel_step\<^sup>+\<^sup>+ (leaves dat) (leaves dat')) \<and> (\<not> b \<longrightarrow> dat' = dat)"
  and "cnot_scan (left :: 'q gate_node list) right removed = Inr (b', out) \<Longrightarrow>
     (removed \<longrightarrow> b') \<and>
     cancel_step\<^sup>*\<^sup>* (leaves (rev left @ right)) (leaves out) \<and>
     (b' \<and> \<not> removed \<longrightarrow> cancel_step\<^sup>+\<^sup>+ (leaves (rev left @ right)) (leaves out)) \<and>
     (\<not> b' \<longrightarrow> out = rev left @ right)"
proof (induction dat and left right removed arbitrary: b dat' and b' out
    rule: remove_double_cnots_once_cnot_scan.induct)
  case (1 dat)
  show ?case
  proof (cases "dat = []")
    case True
    with "1.prems" show ?thesis by (simp add: rdco_Nil)
  next
    case ne: False
    show ?thesis
    proof (cases "length dat = 1 \<and> is_CompositeGate (dat ! 0)")
      case True
      then have dat: "dat = [CompositeGate (name (dat ! 0)) (data (dat ! 0))]"
        using single_composite by blast
      from "1.prems" obtain d' where
        r: "remove_double_cnots_once (data (dat ! 0)) = Inr (b, d')"
        and d': "dat' = [CompositeGate (name (dat ! 0)) d']"
        by (subst (asm) dat) (auto simp: rdco_single split: sum.splits)
      from "1.IH"(1) [OF ne True r]
      have "(b \<longrightarrow> cancel_step\<^sup>+\<^sup>+ (leaves (data (dat ! 0))) (leaves d')) \<and> (\<not> b \<longrightarrow> d' = data (dat ! 0))" .
      moreover have "leaves dat = leaves (data (dat ! 0))" by (subst dat) simp
      moreover have "leaves dat' = leaves d'" by (simp add: d')
      ultimately show ?thesis using dat d' by auto
    next
      case False
      from ne have split: "dat = butlast dat @ [last dat]" by simp
      show ?thesis
      proof (cases "last dat")
        case (Gate nm ps qs)
        with "1.prems" ne False have
          s: "cnot_scan (rev (butlast dat)) [Gate nm ps qs] False = Inr (b, dat')"
          by (simp add: rdco_general)
        from "1.IH"(2) [OF ne False Gate s] split Gate show ?thesis
          by auto
      next
        case (CompositeGate nm d)
        with "1.prems" ne False obtain r d' where
          r: "remove_double_cnots_once d = Inr (r, d')"
          and s: "cnot_scan (rev (butlast dat)) [CompositeGate nm d'] r = Inr (b, dat')"
          by (auto simp: rdco_general split: sum.splits)
        from "1.IH"(3) [OF ne False CompositeGate r]
        have ihd: "r \<longrightarrow> cancel_step\<^sup>+\<^sup>+ (leaves d) (leaves d')" "\<not> r \<longrightarrow> d' = d" by simp_all
        from "1.IH"(4) [OF ne False CompositeGate r refl s]
        have ihs: "r \<longrightarrow> b"
          "cancel_step\<^sup>*\<^sup>* (leaves (butlast dat @ [CompositeGate nm d'])) (leaves dat')"
          "b \<and> \<not> r \<longrightarrow> cancel_step\<^sup>+\<^sup>+ (leaves (butlast dat @ [CompositeGate nm d'])) (leaves dat')"
          "\<not> b \<longrightarrow> dat' = butlast dat @ [CompositeGate nm d']"
          by simp_all
        have ld: "leaves dat = leaves (butlast dat) @ leaves d @ []"
          by (subst split) (simp add: leaves_append CompositeGate)
        have ld': "leaves (butlast dat @ [CompositeGate nm d']) = leaves (butlast dat) @ leaves d' @ []"
          by (simp add: leaves_append)
        show ?thesis
        proof (intro conjI impI)
          assume b
          show "cancel_step\<^sup>+\<^sup>+ (leaves dat) (leaves dat')"
          proof (cases r)
            case True
            with ihd have "cancel_step\<^sup>+\<^sup>+ (leaves dat) (leaves (butlast dat @ [CompositeGate nm d']))"
              unfolding ld ld' by (intro cancel_trancl_ctx) simp
            with ihs(2) show ?thesis by simp
          next
            case False
            with ihd ihs(3) \<open>b\<close> split CompositeGate show ?thesis by simp
          qed
        next
          assume "\<not> b"
          with ihs ihd split CompositeGate show "dat' = dat" by auto
        qed
      qed
    qed
  qed
next
  case (2 left right removed)
  show ?case
  proof (cases left)
    case Nil
    with "2.prems" show ?thesis by (auto simp: cnot_scan_Nil)
  next
    case (Cons g rest)
    from "2.prems" Cons obtain removed' g' removed'' right' where
      d: "descend g removed = Inr (removed', g')"
      and c: "cancel_at g' right removed' = Inr (removed'', right')"
      and s: "cnot_scan rest right' removed'' = Inr (b', out)"
      by (auto simp: cnot_scan_Cons split: sum.splits)
    have dfacts: "(removed \<longrightarrow> removed') \<and> cancel_step\<^sup>*\<^sup>* (leaves [g]) (leaves [g']) \<and>
        (removed' \<and> \<not> removed \<longrightarrow> cancel_step\<^sup>+\<^sup>+ (leaves [g]) (leaves [g'])) \<and>
        (\<not> removed' \<longrightarrow> g' = g)"
    proof (cases g)
      case (Gate nm ps qs)
      with d show ?thesis by (auto simp: descend_def)
    next
      case (CompositeGate nm dd)
      show ?thesis
      proof (cases removed)
        case True
        with d CompositeGate show ?thesis by (auto simp: descend_def)
      next
        case False
        with d CompositeGate obtain d' where
          r: "remove_double_cnots_once dd = Inr (removed', d')" and g': "g' = CompositeGate nm d'"
          by (auto simp: descend_def split: sum.splits)
        from "2.IH"(1) [OF Cons CompositeGate False r] g' CompositeGate False
        show ?thesis by (cases removed') auto
      qed
    qed
    from d have d': "(case g of Gate nm ps qs \<Rightarrow> Inr (removed, g)
            | CompositeGate nm d \<Rightarrow>
                if removed then Inr (True, g)
                else case remove_double_cnots_once d of Inl x \<Rightarrow> Inl x
                     | Inr (r, d') \<Rightarrow> Inr (r, CompositeGate nm d')) = Inr (removed', g')"
      by (simp add: descend_def)
    from "2.IH"(2) [OF Cons d' refl c refl s]
    have ih: "removed'' \<longrightarrow> b'"
      "cancel_step\<^sup>*\<^sup>* (leaves (rev rest @ right')) (leaves out)"
      "b' \<and> \<not> removed'' \<longrightarrow> cancel_step\<^sup>+\<^sup>+ (leaves (rev rest @ right')) (leaves out)"
      "\<not> b' \<longrightarrow> out = rev rest @ right'"
      by simp_all
    have L: "leaves (rev left @ right) = leaves (rev rest) @ leaves [g] @ leaves right"
      using leaves_Cons [of g right] by (simp add: Cons leaves_append)
    let ?M = "leaves (rev rest) @ leaves [g'] @ leaves right"
    have M: "?M = leaves (rev rest) @ leaves (g' # right)"
      using leaves_Cons [of g' right] by simp
    have R: "leaves (rev rest @ right') = leaves (rev rest) @ leaves right'"
      by (simp add: leaves_append)
    from dfacts have s1: "cancel_step\<^sup>*\<^sup>* (leaves (rev left @ right)) ?M"
      unfolding L by (intro cancel_rtrancl_ctx) simp
    from dfacts have s1': "removed' \<and> \<not> removed \<longrightarrow> cancel_step\<^sup>+\<^sup>+ (leaves (rev left @ right)) ?M"
      unfolding L by (auto intro: cancel_trancl_ctx)
    from cancel_at_cases [OF c] have
      cc: "(removed'' = removed' \<and> right' = g' # right) \<or>
           (removed'' \<and> cancel_step ?M (leaves (rev rest @ right')))"
      unfolding M R using cancel_step_prefix [of "leaves (g' # right)" "leaves right'" "leaves (rev rest)"]
      by blast
    then have s2: "cancel_step\<^sup>*\<^sup>* ?M (leaves (rev rest @ right'))"
      using M R by auto
    show ?thesis
    proof (intro conjI impI)
      assume removed
      with dfacts cc ih show b' by auto
    next
      from s1 s2 ih(2) show "cancel_step\<^sup>*\<^sup>* (leaves (rev left @ right)) (leaves out)"
        by auto
    next
      assume a: "b' \<and> \<not> removed"
      show "cancel_step\<^sup>+\<^sup>+ (leaves (rev left @ right)) (leaves out)"
      proof (cases removed'')
        case False
        with a ih(3) have "cancel_step\<^sup>+\<^sup>+ (leaves (rev rest @ right')) (leaves out)" by simp
        with s1 s2 show ?thesis by auto
      next
        case True
        show ?thesis
        proof (cases removed')
          case True
          with a s1' have "cancel_step\<^sup>+\<^sup>+ (leaves (rev left @ right)) ?M" by simp
          with s2 ih(2) show ?thesis by auto
        next
          case False
          with True cc have "cancel_step ?M (leaves (rev rest @ right'))" by auto
          with s1 ih(2) show ?thesis
            by (meson rtranclp_into_tranclp1 tranclp_rtranclp_tranclp rtranclp_trans)
        qed
      qed
    next
      assume nb: "\<not> b'"
      with ih have "\<not> removed''" "out = rev rest @ right'" by auto
      with cc have "right' = g' # right" "\<not> removed'" by auto
      with dfacts \<open>out = rev rest @ right'\<close> Cons show "out = rev left @ right" by simp
    qed
  qed
qed

section \<open>Properties of the zero-rotation pass\<close>

lemma chop_num_zero_iff: "chop_num p = 0 \<longleftrightarrow> \<bar>p\<bar> < EPS"
  by (auto simp: chop_num_def EPS_def)

lemma rzr_Composite:
  assumes "remove_zero_rotations (CompositeGate nm d # gs) = Inr (b, dat')"
  shows "\<exists>r d' r' gs'. remove_zero_rotations d = Inr (r, d') \<and>
    remove_zero_rotations gs = Inr (r', gs') \<and> b = (r \<or> r') \<and>
    dat' = (if d' \<noteq> [] then CompositeGate nm d' # gs' else gs')"
proof (cases "remove_zero_rotations d")
  case (Inl e)
  with assms show ?thesis by simp
next
  case (Inr p)
  obtain r d' where p: "p = (r, d')" by (cases p)
  show ?thesis
  proof (cases "remove_zero_rotations gs")
    case (Inl e)
    with assms Inr p show ?thesis by simp
  next
    case q: (Inr q)
    obtain r' gs' where "q = (r', gs')" by (cases q)
    with assms Inr p q show ?thesis by simp
  qed
qed

lemma rzr_Gate_keep:
  "\<not> rotation_name nm \<Longrightarrow>
   remove_zero_rotations (Gate nm ps qs # gs) =
     (case remove_zero_rotations gs of
        Inl e \<Rightarrow> Inl e
      | Inr (r', gs') \<Rightarrow> Inr (r', Gate nm ps qs # gs'))"
  by (simp add: rotation_name_def)

lemma rzr_Gate_err:
  "rotation_name nm \<Longrightarrow> remove_zero_rotations (Gate nm [] qs # gs) = Inl IndexError"
  by (simp add: rotation_name_def)

lemma rzr_Gate_rot:
  "rotation_name nm \<Longrightarrow>
   remove_zero_rotations (Gate nm (p # ps) qs # gs) =
     (case remove_zero_rotations gs of
        Inl e \<Rightarrow> Inl e
      | Inr (r', gs') \<Rightarrow>
          if \<bar>p\<bar> < EPS then Inr (True, gs') else Inr (r', Gate nm (p # ps) qs # gs'))"
  by (simp add: rotation_name_def chop_num_zero_iff split: sum.splits)

lemma rzr_Gate:
  assumes "remove_zero_rotations (Gate nm ps qs # gs) = Inr (b, dat')"
  shows "\<exists>r' gs'. remove_zero_rotations gs = Inr (r', gs') \<and>
           (\<not> rotation_name nm \<or> ps \<noteq> []) \<and>
           (if zero_rotation (Gate nm ps qs) then b \<and> dat' = gs'
            else b = r' \<and> dat' = Gate nm ps qs # gs')"
proof (cases "rotation_name nm")
  case False
  from assms have "(case remove_zero_rotations gs of
        Inl e \<Rightarrow> Inl e
      | Inr (r', gs') \<Rightarrow> Inr (r', Gate nm ps qs # gs')) = Inr (b, dat')"
    unfolding rzr_Gate_keep [OF False] .
  with False show ?thesis
    by (auto simp: zero_rotation_def split: sum.splits)
next
  case True
  show ?thesis
  proof (cases ps)
    case Nil
    with assms show ?thesis unfolding Nil rzr_Gate_err [OF True] by simp
  next
    case (Cons p ps')
    from assms have "(case remove_zero_rotations gs of
        Inl e \<Rightarrow> Inl e
      | Inr (r', gs') \<Rightarrow>
          if \<bar>p\<bar> < EPS then Inr (True, gs') else Inr (r', Gate nm (p # ps') qs # gs')) = Inr (b, dat')"
      unfolding Cons rzr_Gate_rot [OF True] .
    with True Cons show ?thesis
      by (auto simp: zero_rotation_def split: sum.splits if_splits)
  qed
qed

lemma rzr_well_formed:
  "well_formed dat \<Longrightarrow> \<exists>b dat'. remove_zero_rotations dat = Inr (b, dat')"
proof (induction dat rule: remove_zero_rotations.induct)
  case 1
  show ?case by auto
next
  case (2 nm d gs)
  from "2.prems" have wd: "well_formed d" and wg: "well_formed gs" by simp_all
  from "2.IH"(1) [OF wd] obtain r d' where d: "remove_zero_rotations d = Inr (r, d')" by blast
  from "2.IH"(2) [OF d refl wg] obtain r' gs' where "remove_zero_rotations gs = Inr (r', gs')"
    by blast
  with d show ?case by simp
next
  case (3 nm ps qs gs)
  from "3.prems" have wf: "well_formed gs" and ps: "\<not> rotation_name nm \<or> ps \<noteq> []" by simp_all
  have "\<exists>b dat'. remove_zero_rotations gs = Inr (b, dat')"
  proof (cases "rotation_name nm")
    case False
    then show ?thesis using "3.IH"(1) wf by (simp add: rotation_name_def)
  next
    case True
    with ps obtain p ps' where c: "ps = p # ps'" by (cases ps) auto
    from True have rn: "\<not> \<not> (nm = ''rz'' \<or> nm = ''ry'' \<or> nm = ''rx'')"
      by (simp add: rotation_name_def)
    show ?thesis
      using "3.IH"(2) [OF rn c _ wf] "3.IH"(3) [OF rn c _ wf] by (cases "chop_num p \<noteq> 0") blast+
  qed
  then obtain r' gs' where g: "remove_zero_rotations gs = Inr (r', gs')" by blast
  show ?case
  proof (cases "rotation_name nm")
    case False
    show ?thesis unfolding rzr_Gate_keep [OF False] g by auto
  next
    case True
    with ps obtain p ps' where c: "ps = p # ps'" by (cases ps) auto
    show ?thesis unfolding c rzr_Gate_rot [OF True] g by auto
  qed
qed

text \<open>The induction hypothesis for the rest of the list, whatever the head leaf is.\<close>

lemma rzr_induct [consumes 1, case_names Nil Composite Gate]:
  assumes "remove_zero_rotations dat = Inr (b, dat')"
    and "P [] False []"
    and "\<And>nm d gs r d' r' gs'.
           remove_zero_rotations d = Inr (r, d') \<Longrightarrow> P d r d' \<Longrightarrow>
           remove_zero_rotations gs = Inr (r', gs') \<Longrightarrow> P gs r' gs' \<Longrightarrow>
           P (CompositeGate nm d # gs) (r \<or> r') (if d' \<noteq> [] then CompositeGate nm d' # gs' else gs')"
    and "\<And>nm ps qs gs r' gs'.
           remove_zero_rotations gs = Inr (r', gs') \<Longrightarrow> P gs r' gs' \<Longrightarrow>
           \<not> rotation_name nm \<or> ps \<noteq> [] \<Longrightarrow>
           P (Gate nm ps qs # gs)
             (if zero_rotation (Gate nm ps qs) then True else r')
             (if zero_rotation (Gate nm ps qs) then gs' else Gate nm ps qs # gs')"
  shows "P dat b dat'"
  using assms(1)
proof (induction dat arbitrary: b dat' rule: remove_zero_rotations.induct)
  case 1
  with assms(2) show ?case by simp
next
  case (2 nm d gs)
  from rzr_Composite [OF "2.prems"] obtain r d' r' gs' where
    h: "remove_zero_rotations d = Inr (r, d')" "remove_zero_rotations gs = Inr (r', gs')"
      "b = (r \<or> r')" "dat' = (if d' \<noteq> [] then CompositeGate nm d' # gs' else gs')" by blast
  from assms(3) [OF h(1) "2.IH"(1) [OF h(1)] h(2) "2.IH"(2) [OF h(1) refl h(2)]] h(3,4)
  show ?case by simp
next
  case (3 nm ps qs gs)
  from rzr_Gate [OF "3.prems"] obtain r' gs' where
    h: "remove_zero_rotations gs = Inr (r', gs')" "\<not> rotation_name nm \<or> ps \<noteq> []"
      "if zero_rotation (Gate nm ps qs) then b \<and> dat' = gs'
       else b = r' \<and> dat' = Gate nm ps qs # gs'" by blast
  have ih: "P gs r' gs'"
  proof (cases "rotation_name nm")
    case False
    then show ?thesis using "3.IH"(1) [OF _ h(1)] by (simp add: rotation_name_def)
  next
    case True
    with h(2) obtain p ps' where c: "ps = p # ps'" by (cases ps) auto
    from True have rn: "\<not> \<not> (nm = ''rz'' \<or> nm = ''ry'' \<or> nm = ''rx'')"
      by (simp add: rotation_name_def)
    show ?thesis
      using "3.IH"(2) [OF rn c _ h(1)] "3.IH"(3) [OF rn c _ h(1)]
      by (cases "chop_num p \<noteq> 0") blast+
  qed
  from assms(4) [OF h(1) ih h(2), of qs] h(3) show ?case
    by (cases "zero_rotation (Gate nm ps qs)") simp_all
qed

lemma rzr_leaves:
  "remove_zero_rotations dat = Inr (b, dat') \<Longrightarrow>
     leaves dat' = filter (\<lambda>g. \<not> zero_rotation g) (leaves dat)"
  by (induction rule: rzr_induct) (auto dest: sym)

lemma rzr_flag:
  "remove_zero_rotations dat = Inr (b, dat') \<Longrightarrow> b = list_ex zero_rotation (leaves dat)"
  by (induction rule: rzr_induct) auto

lemma rzr_no_childless:
  "remove_zero_rotations dat = Inr (b, dat') \<Longrightarrow> no_childless dat'"
  by (induction rule: rzr_induct) simp_all

lemma rzr_angle_kept:
  "remove_zero_rotations dat = Inr (b, dat') \<Longrightarrow> list_all angle_kept (leaves dat')"
  by (induction rule: rzr_induct) (simp_all add: angle_kept_def)

lemma rzr_fixed:
  "no_childless dat \<Longrightarrow> list_all angle_kept (leaves dat) \<Longrightarrow>
   remove_zero_rotations dat = Inr (False, dat)"
proof (induction dat rule: leaves.induct)
  case 1
  show ?case by simp
next
  case (2 nm d gs)
  then show ?case by simp
next
  case (3 nm ps qs gs)
  then have g: "remove_zero_rotations gs = Inr (False, gs)"
    and k: "angle_kept (Gate nm ps qs)" by simp_all
  show ?case
  proof (cases "rotation_name nm")
    case False
    show ?thesis unfolding rzr_Gate_keep [OF False] g by simp
  next
    case True
    with k obtain p ps' where c: "ps = p # ps'" and "\<not> \<bar>p\<bar> < EPS"
      by (cases ps) (auto simp: angle_kept_def zero_rotation_def)
    then show ?thesis unfolding c rzr_Gate_rot [OF True] g by simp
  qed
qed

section \<open>The fixpoint loop\<close>

lemma cancel_step_filter:
  "cancel_step xs ys \<Longrightarrow>
   filter (\<lambda>g. name g \<noteq> ''cx'') ys = filter (\<lambda>g. name g \<noteq> ''cx'') xs"
  by (induction rule: cancel_step.induct) simp

lemma cancel_steps_filter:
  "cancel_step\<^sup>*\<^sup>* xs ys \<Longrightarrow>
   filter (\<lambda>g. name g \<noteq> ''cx'') ys = filter (\<lambda>g. name g \<noteq> ''cx'') xs"
  by (induction rule: rtranclp_induct) (simp_all add: cancel_step_filter)

lemma cancel_step_set: "cancel_step xs ys \<Longrightarrow> set ys \<subseteq> set xs"
  by (induction rule: cancel_step.induct) auto

lemma cancel_steps_set: "cancel_step\<^sup>*\<^sup>* xs ys \<Longrightarrow> set ys \<subseteq> set xs"
  by (induction rule: rtranclp_induct) (auto dest: cancel_step_set)

lemma cancel_step_length: "cancel_step xs ys \<Longrightarrow> length xs = length ys + 2"
  by (induction rule: cancel_step.induct) simp

lemma cancel_steps_length: "cancel_step\<^sup>*\<^sup>* xs ys \<Longrightarrow> length ys \<le> length xs"
  by (induction rule: rtranclp_induct) (auto dest: cancel_step_length)

lemma cancel_trancl_length: "cancel_step\<^sup>+\<^sup>+ xs ys \<Longrightarrow> length ys + 2 \<le> length xs"
  by (induction rule: tranclp_induct) (auto dest: cancel_step_length)

lemma rdco_frame:
  "remove_double_cnots_once dat = Inr (b, dat') \<Longrightarrow> cancel_step\<^sup>*\<^sup>* (leaves dat) (leaves dat')"
  using pass_invariant(1) [of dat b dat'] by (cases b) auto

lemma rdco_False: "remove_double_cnots_once dat = Inr (False, dat') \<Longrightarrow> dat' = dat"
  using pass_invariant(1) [of dat False dat'] by simp

lemma rdco_True:
  "remove_double_cnots_once dat = Inr (True, dat') \<Longrightarrow>
   number_atomic_gates dat' + 2 \<le> number_atomic_gates dat"
  using pass_invariant(1) [of dat True dat']
  by (auto simp: number_atomic_gates_leaves dest: cancel_trancl_length)

lemma cnot_fixpoint_terminates: "\<exists>r. cnot_fixpoint dat = Some r"
proof (induction "number_atomic_gates dat" arbitrary: dat rule: less_induct)
  case less
  show ?case
  proof (cases "remove_double_cnots_once dat")
    case (Inl e)
    then show ?thesis by (subst cnot_fixpoint.simps) simp
  next
    case (Inr p)
    obtain b dat' where p: "p = (b, dat')" by (cases p)
    show ?thesis
    proof (cases b)
      case False
      with Inr p show ?thesis by (subst cnot_fixpoint.simps) simp
    next
      case True
      with Inr p rdco_True [of dat dat'] have "number_atomic_gates dat' < number_atomic_gates dat"
        by simp
      from less [OF this] Inr p True show ?thesis by (subst cnot_fixpoint.simps) simp
    qed
  qed
qed

lemma cnot_fixpoint_result_aux:
  assumes "cnot_fixpoint dat = Some r"
  shows "\<forall>dat'. r = Inr dat' \<longrightarrow>
     cancel_step\<^sup>*\<^sup>* (leaves dat) (leaves dat') \<and> remove_double_cnots_once dat' = Inr (False, dat')"
proof (rule cnot_fixpoint.raw_induct [where dat = dat and y = r and
      P = "\<lambda>dat r. \<forall>dat'. r = Inr dat' \<longrightarrow>
        cancel_step\<^sup>*\<^sup>* (leaves dat) (leaves dat') \<and>
        remove_double_cnots_once dat' = Inr (False, dat')"])
  show "cnot_fixpoint dat = Some r" by fact
next
  fix f :: "'a gate_node list \<Rightarrow> (error + 'a gate_node list) option" and dat r
  assume ih: "\<And>x y. f x = Some y \<Longrightarrow> \<forall>dat'. y = Inr dat' \<longrightarrow>
        cancel_step\<^sup>*\<^sup>* (leaves x) (leaves dat') \<and>
        remove_double_cnots_once dat' = Inr (False, dat')"
    and eq: "(case remove_double_cnots_once dat of
                Inl e \<Rightarrow> Some (Inl e)
              | Inr (removed, dat') \<Rightarrow> if removed then f dat' else Some (Inr dat')) = Some r"
  show "\<forall>dat'. r = Inr dat' \<longrightarrow>
        cancel_step\<^sup>*\<^sup>* (leaves dat) (leaves dat') \<and>
        remove_double_cnots_once dat' = Inr (False, dat')"
  proof (cases "remove_double_cnots_once dat")
    case (Inl e)
    with eq show ?thesis by auto
  next
    case (Inr p)
    obtain b d where p: "p = (b, d)" by (cases p)
    show ?thesis
    proof (cases b)
      case False
      with eq Inr p have r: "r = Inr d" by simp
      from Inr p False have "d = dat" using rdco_False [of dat d] by simp
      with Inr p False have "remove_double_cnots_once d = Inr (False, d)" by simp
      moreover have "cancel_step\<^sup>*\<^sup>* (leaves dat) (leaves d)" using \<open>d = dat\<close> by simp
      ultimately show ?thesis using r by simp
    next
      case True
      with eq Inr p have "f d = Some r" by simp
      from ih [OF this] rdco_frame [of dat b d] Inr p show ?thesis by auto
    qed
  qed
qed

lemma cnot_fixpoint_result:
  "cnot_fixpoint dat = Some (Inr dat') \<Longrightarrow>
   cancel_step\<^sup>*\<^sup>* (leaves dat) (leaves dat') \<and> remove_double_cnots_once dat' = Inr (False, dat')"
  using cnot_fixpoint_result_aux [of dat "Inr dat'"] by blast

lemma cnot_fixpoint_fixed:
  "remove_double_cnots_once dat = Inr (False, dat) \<Longrightarrow> cnot_fixpoint dat = Some (Inr dat)"
  by (subst cnot_fixpoint.simps) simp


section \<open>Properties of the synthesis\<close>

subsection \<open>The angle weights\<close>

lemma math_log2_pow: "math_log2 (2 ^ k) = Inr (real k)"
  by (simp add: math_log2_def)

lemma unit_row_dot:
  assumes "i < h" "length v = h"
  shows "sum_list (map2 (*) (map (\<lambda>j. if i = j then 1 else 0) [0..<h]) v) = (v ! i :: real)"
proof -
  have "map2 (*) (map (\<lambda>j. if i = j then 1 else 0) [0..<h]) v
        = map (\<lambda>j. (if i = j then 1 else 0) * v ! j) [0..<h]"
    using assms(2) by (intro nth_equalityI) simp_all
  then have "sum_list (map2 (*) (map (\<lambda>j. if i = j then 1 else 0) [0..<h]) v)
        = (\<Sum>j = 0..<h. (if i = j then 1 else 0) * v ! j)"
    by (simp add: interv_sum_list_conv_sum_set_nat)
  also have "\<dots> = (\<Sum>j = 0..<h. if i = j then v ! j else 0)"
    by (intro sum.cong) simp_all
  also have "\<dots> = v ! i" using assms(1) by simp
  finally show ?thesis .
qed

lemma scaled_row_dot:
  assumes "length row = length v"
  shows "sum_list (map2 (*) (map (\<lambda>b. a * b) row) v) = (a :: real) * sum_list (map2 (*) row v)"
  using assms
proof (induction row v rule: list_induct2)
  case Nil
  show ?case by simp
next
  case (Cons x xs y ys)
  then show ?case by (simp add: algebra_simps)
qed

lemma split_row_dot:
  assumes "length r1 = length lo"
  shows "sum_list (map2 (*) (r1 @ r2) (lo @ hi))
       = sum_list (map2 (*) r1 lo) + sum_list (map2 (*) r2 (hi :: real list))"
  using assms by simp

lemma kron_rows:
  "kron [[a, b], [c, d]] B =
     map (\<lambda>rb. map (\<lambda>y. a * y) rb @ map (\<lambda>y. b * y) rb) B @
     map (\<lambda>rb. map (\<lambda>y. c * y) rb @ map (\<lambda>y. d * y) rb) B"
  by (simp add: kron_def)

lemma block_row_dot:
  fixes a b :: real
  assumes "length e = length lo" "length e = length hi"
  shows "sum_list (map2 (*) (map (\<lambda>y. a * y) e @ map (\<lambda>y. b * y) e) (lo @ hi))
         = a * sum_list (map2 (*) e lo) + b * sum_list (map2 (*) e hi)"
proof -
  have "sum_list (map2 (*) (map (\<lambda>y. a * y) e @ map (\<lambda>y. b * y) e) (lo @ hi))
      = sum_list (map2 (*) (map (\<lambda>y. a * y) e) lo) + sum_list (map2 (*) (map (\<lambda>y. b * y) e) hi)"
    using assms by (intro split_row_dot) simp
  also have "sum_list (map2 (*) (map (\<lambda>y. a * y) e) lo) = a * sum_list (map2 (*) e lo)"
    by (rule scaled_row_dot) fact
  also have "sum_list (map2 (*) (map (\<lambda>y. b * y) e) hi) = b * sum_list (map2 (*) e hi)"
    by (rule scaled_row_dot) fact
  finally show ?thesis .
qed

lemma dot_kron_identity:
  assumes "length lo = h" "length hi = h"
  shows "dot (kron [[a, b], [c, d]] (identity h)) (lo @ hi) =
           Inr (map2 (\<lambda>x y. a * x + b * y) lo hi @ map2 (\<lambda>x y. c * x + d * y) lo hi)"
proof -
  define e where "e = (\<lambda>i. map (\<lambda>j. if i = j then 1 else 0 :: real) [0..<h])"
  have id: "identity h = map e [0..<h]" by (simp add: identity_def e_def)
  have le: "length (e i) = h" for i by (simp add: e_def)
  have ei: "sum_list (map2 (*) (e i) v) = v ! i" if "i < h" "length v = h" for i v
    unfolding e_def using that by (rule unit_row_dot)
  have rows: "list_all (\<lambda>row. length row = length (lo @ hi)) (kron [[a, b], [c, d]] (identity h))"
    using assms by (auto simp: kron_rows id le list_all_iff)
  have m2: "map2 f lo hi = map (\<lambda>i. f (lo ! i) (hi ! i)) [0..<h]" for f :: "real \<Rightarrow> real \<Rightarrow> real"
    using assms by (intro nth_equalityI) simp_all
  have block: "map (\<lambda>row. sum_list (map2 (*) row (lo @ hi)))
          (map (\<lambda>rb. map (\<lambda>y. p * y) rb @ map (\<lambda>y. q * y) rb) (identity h))
        = map (\<lambda>i. p * lo ! i + q * hi ! i) [0..<h]" for p q :: real
  proof -
    have "sum_list (map2 (*) (map (\<lambda>y. p * y) (e i) @ map (\<lambda>y. q * y) (e i)) (lo @ hi))
         = p * lo ! i + q * hi ! i" if "i \<in> set [0..<h]" for i
    proof -
      from that have i: "i < h" by simp
      have "sum_list (map2 (*) (map (\<lambda>y. p * y) (e i) @ map (\<lambda>y. q * y) (e i)) (lo @ hi))
          = p * sum_list (map2 (*) (e i) lo) + q * sum_list (map2 (*) (e i) hi)"
        using assms le [of i] by (intro block_row_dot) simp_all
      with ei [OF i assms(1)] ei [OF i assms(2)] show ?thesis by simp
    qed
    then show ?thesis
      unfolding id map_map by (intro map_cong [OF refl]) (simp only: o_apply)
  qed
  have "map (\<lambda>row. sum_list (map2 (*) row (lo @ hi))) (kron [[a, b], [c, d]] (identity h))
      = map (\<lambda>i. a * lo ! i + b * hi ! i) [0..<h] @ map (\<lambda>i. c * lo ! i + d * hi ! i) [0..<h]"
    unfolding kron_rows map_append block ..
  with rows show ?thesis by (simp add: dot_def m2)
qed

lemma combo_angles:
  assumes "length xs = 2 * h"
  shows "dot (kron [[1/2, 1/2], [1/2, - 1/2]] (identity h)) xs = Inr (sum_difference_split xs)"
proof -
  have xs: "xs = take h xs @ drop h xs" by simp
  have l: "length (take h xs) = h" "length (drop h xs) = h" using assms by simp_all
  have "dot (kron [[1/2, 1/2], [1/2, - 1/2]] (identity h)) (take h xs @ drop h xs) =
      Inr (map2 (\<lambda>x y. 1/2 * x + 1/2 * y) (take h xs) (drop h xs) @
           map2 (\<lambda>x y. 1/2 * x + - 1/2 * y) (take h xs) (drop h xs))"
    by (rule dot_kron_identity [OF l])
  moreover have "(\<lambda>x y. 1/2 * x + 1/2 * y) = (\<lambda>x y :: real. (x + y) / 2)"
    by (intro ext) (simp add: field_simps)
  moreover have "(\<lambda>x y. 1/2 * x + - 1/2 * y) = (\<lambda>x y :: real. (x - y) / 2)"
    by (intro ext) (simp add: field_simps)
  ultimately show ?thesis using assms by (simp add: sum_difference_split_def Let_def)
qed

subsection \<open>Multiplexed rotations\<close>

lemma length_sum_difference_split:
  "length xs = 2 * h \<Longrightarrow> length (sum_difference_split xs) = 2 * h"
  by (simp add: sum_difference_split_def Let_def)

lemma multiplex_base:
  "bottom < length qs \<Longrightarrow> multiplex n qs bg bottom [a] = Inr (bg a (qs ! bottom))"
  by (subst multiplex.simps) (simp add: nth_qubit_from_least_sig_qubit_def)

lemma multiplex_step:
  assumes "length angles = 2 ^ Suc k" and "Suc k + bottom < length qs"
  shows "multiplex n qs bg bottom angles =
     (case multiplex n qs bg bottom (take (2 ^ k) (sum_difference_split angles)) of
        Inl e \<Rightarrow> Inl e
      | Inr low \<Rightarrow>
          (case multiplex n qs bg bottom (drop (2 ^ k) (sum_difference_split angles)) of
             Inl e \<Rightarrow> Inl e
           | Inr sub_gate \<Rightarrow>
               Inr (CompositeGate (''multiplex'' @ str_nat (Suc k + 1))
                     ([low, CnotGate (qs ! (Suc k + bottom)) (qs ! bottom), reverse sub_gate] @
                      (if n = Suc k + 1 + bottom
                       then [CnotGate (qs ! (Suc k + bottom)) (qs ! bottom)] else [])))))"
proof -
  have len: "length angles = 2 * 2 ^ k" using assms(1) by simp
  have ne1: "length angles \<noteq> 1" using len by (metis even_mult_iff even_numeral odd_one)
  have lg: "math_log2 (length angles) = Inr (real (Suc k))"
    unfolding assms(1) by (rule math_log2_pow)
  have fl: "nat \<lfloor>real (Suc k)\<rfloor> = Suc k" by simp
  have t: "nth_qubit_from_least_sig_qubit qs bottom = Inr (qs ! bottom)"
    using assms(2) by (simp add: nth_qubit_from_least_sig_qubit_def)
  have c: "nth_qubit_from_least_sig_qubit qs (Suc k + 1 - 1 + bottom) = Inr (qs ! (Suc k + bottom))"
    using assms(2) by (simp add: nth_qubit_from_least_sig_qubit_def)
  have d: "dot (kron [[1/2, 1/2], [1/2, - 1/2]] (identity (2 ^ (Suc k + 1 - 2)))) angles
      = Inr (sum_difference_split angles)"
    using combo_angles [OF len] by simp
  have half: "length angles div 2 = 2 ^ k" using len by simp
  show ?thesis
    by (subst multiplex.simps) (simp only: Let_def t sum.case ne1 if_False lg fl c d half)
qed

lemma multiplex_total:
  "length angles = 2 ^ k \<Longrightarrow> k + bottom < length qs \<Longrightarrow>
   \<exists>g. multiplex n qs bg bottom angles = Inr g"
proof (induction k arbitrary: angles)
  case 0
  then obtain a where "angles = [a]" by (cases angles) simp_all
  with 0 show ?case by (simp add: multiplex_base)
next
  case (Suc k)
  let ?c = "sum_difference_split angles"
  from Suc.prems(1) have "length ?c = 2 * 2 ^ k"
    by (intro length_sum_difference_split) simp
  then have "length (take (2 ^ k) ?c) = 2 ^ k" "length (drop (2 ^ k) ?c) = 2 ^ k" by simp_all
  moreover from Suc.prems(2) have "k + bottom < length qs" by simp
  ultimately obtain low high where
    "multiplex n qs bg bottom (take (2 ^ k) ?c) = Inr low"
    "multiplex n qs bg bottom (drop (2 ^ k) ?c) = Inr high"
    using Suc.IH by blast
  then show ?case by (simp add: multiplex_step [OF Suc.prems])
qed

lemma multiplex_structure:
  assumes "length angles = 2 ^ k" and "k + bottom < length qs"
  shows "if k = 0 then multiplex n qs bg bottom angles = Inr (bg (angles ! 0) (qs ! bottom))
         else (\<exists>low high.
           multiplex n qs bg bottom (take (2 ^ (k - 1)) (sum_difference_split angles)) = Inr low \<and>
           multiplex n qs bg bottom (drop (2 ^ (k - 1)) (sum_difference_split angles)) = Inr high \<and>
           multiplex n qs bg bottom angles =
             Inr (CompositeGate (''multiplex'' @ str_nat (k + 1))
                   ([low, CnotGate (qs ! (k + bottom)) (qs ! bottom), reverse high] @
                    (if n = k + 1 + bottom
                     then [CnotGate (qs ! (k + bottom)) (qs ! bottom)] else []))))"
proof (cases k)
  case 0
  with assms obtain a where "angles = [a]" by (cases angles) simp_all
  with 0 assms show ?thesis by (simp add: multiplex_base)
next
  case (Suc j)
  let ?c = "sum_difference_split angles"
  from assms(1) Suc have "length ?c = 2 * 2 ^ j"
    by (intro length_sum_difference_split) simp
  then have l: "length (take (2 ^ j) ?c) = 2 ^ j" "length (drop (2 ^ j) ?c) = 2 ^ j" by simp_all
  from assms(2) Suc have b: "j + bottom < length qs" by simp
  from multiplex_total [OF l(1) b] multiplex_total [OF l(2) b] obtain low high where
    lh: "multiplex n qs bg bottom (take (2 ^ j) ?c) = Inr low"
      "multiplex n qs bg bottom (drop (2 ^ j) ?c) = Inr high"
    by blast
  from assms Suc have "length angles = 2 ^ Suc j" "Suc j + bottom < length qs" by simp_all
  from multiplex_step [OF this, of n bg] lh Suc show ?thesis by simp
qed

lemma str_nat_2: "str_nat (Suc 0 + 1) = ''2''"
  by code_simp

lemma multiplex_two_angles:
  assumes "Suc bottom < length qs"
  shows "multiplex n qs bg bottom [x, y] =
     Inr (CompositeGate ''multiplex2''
           ([bg ((x + y) / 2) (qs ! bottom), CnotGate (qs ! Suc bottom) (qs ! bottom),
             reverse (bg ((x - y) / 2) (qs ! bottom))] @
            (if n = Suc (Suc bottom) then [CnotGate (qs ! Suc bottom) (qs ! bottom)] else [])))"
proof -
  have "length [x, y] = 2 ^ Suc 0" "Suc 0 + bottom < length qs" using assms by simp_all
  note st = multiplex_step [OF this, of n bg]
  have t1: "take (2 ^ 0) (sum_difference_split [x, y]) = [(x + y) / 2]"
    and t2: "drop (2 ^ 0) (sum_difference_split [x, y]) = [(x - y) / 2]"
    by (simp_all add: sum_difference_split_def)
  have b: "multiplex n qs bg bottom [a] = Inr (bg a (qs ! bottom))" for a
    using assms by (simp add: multiplex_base)
  show ?thesis
    unfolding st t1 t2 b sum.case str_nat_2 by simp
qed

subsection \<open>Validation and the one-qubit initializer\<close>











section \<open>The claims\<close>


text \<open>
  C2, as claimed: in the recursive case on \<open>2 ^ k\<close> angles the trailing CNOT is appended
  exactly if the total qubit count equals \<open>k\<close> plus the bottom qubit index.  The source
  compares the total qubit count with \<^verbatim>\<open>local_num_qubits + bottom_qubit_index\<close>, and
  \<^verbatim>\<open>local_num_qubits\<close> is \<open>k + 1\<close>.  With two qubits, bottom index 0 and two angles
  (\<open>k = 1\<close>) the trailing CNOT is appended although \<open>2 \<noteq> 1 + 0\<close>; with bottom index 1,
  where \<open>2 = 1 + 1\<close>, the call raises \<^verbatim>\<open>IndexError\<close> for the control qubit instead.
\<close>

theorem multiplex_trailing_cnot_counterexample:
  "multiplex 2 [0::nat, 1] RZGate 0 [1, 3] =
     Inr (CompositeGate ''multiplex2''
           [RZGate 2 0, CnotGate 1 0, RZGate (- 1) 0, CnotGate 1 0]) \<and>
   (2::nat) \<noteq> 1 + 0 \<and>
   multiplex 2 [0::nat, 1] RZGate 1 [1, 3] = Inl IndexError \<and>
   (2::nat) = 1 + 1"
proof -
  have "multiplex 2 [0::nat, 1] RZGate 0 [1, 3] =
     Inr (CompositeGate ''multiplex2''
           [RZGate 2 0, CnotGate 1 0, RZGate (- 1) 0, CnotGate 1 0])"
    by (subst multiplex_two_angles) (simp_all add: RZGate_def)
  moreover have "multiplex 2 [0::nat, 1] RZGate 1 [1, 3] = Inl IndexError"
    by (subst multiplex.simps)
       (simp add: nth_qubit_from_least_sig_qubit_def math_log2_def)
  ultimately show ?thesis by simp
qed

text \<open>
  C2, amended.  On an angle list of length \<open>2 ^ k\<close> with \<open>k \<ge> 1\<close>, and with the control
  qubit at offset \<open>k + bottom\<close> among the qubit arguments, the synthesizer returns a
  composite of three children followed by the trailing CNOT exactly if the total qubit
  count equals \<open>k + 1 + bottom\<close>; otherwise nothing follows the three children.
\<close>

theorem multiplex_trailing_cnot:
  assumes "length angles = 2 ^ k" and "1 \<le> k" and "k + bottom < length qs"
  shows "\<exists>nm front. length front = 3 \<and>
           multiplex n qs bg bottom angles =
             Inr (CompositeGate nm
                   (front @ (if n = k + 1 + bottom
                             then [CnotGate (qs ! (k + bottom)) (qs ! bottom)] else [])))"
proof -
  from assms(2) have "k \<noteq> 0" by simp
  with multiplex_structure [OF assms(1,3), of n bg] obtain low high where
    "multiplex n qs bg bottom angles =
       Inr (CompositeGate (''multiplex'' @ str_nat (k + 1))
             ([low, CnotGate (qs ! (k + bottom)) (qs ! bottom), reverse high] @
              (if n = k + 1 + bottom
               then [CnotGate (qs ! (k + bottom)) (qs ! bottom)] else [])))"
    by auto
  then show ?thesis
    by (intro exI [of _ "''multiplex'' @ str_nat (k + 1)"]
          exI [of _ "[low, CnotGate (qs ! (k + bottom)) (qs ! bottom), reverse high]"]) simp
qed

theorem multiplex_trailing_cnot_witness:
  "(\<exists>nm front. length front = 3 \<and>
      multiplex 2 [0::nat, 1] RZGate 0 [1, 3] = Inr (CompositeGate nm (front @ [CnotGate 1 0]))) \<and>
   (\<exists>nm front. length front = 3 \<and>
      multiplex 3 [0::nat, 1, 2] RZGate 0 [1, 3] = Inr (CompositeGate nm (front @ [])))"
  using multiplex_trailing_cnot [of "[1, 3]" 1 0 "[0::nat, 1]" 2 RZGate]
    multiplex_trailing_cnot [of "[1, 3]" 1 0 "[0::nat, 1, 2]" 3 RZGate]
  by simp


text \<open>
  C3, as claimed: the control of the CNOT leaf is the qubit at offset \<open>k - 1 + bottom\<close>.
  The source takes the qubit at offset \<^verbatim>\<open>local_num_qubits - 1 + bottom_qubit_index\<close>, which
  is \<open>k + bottom\<close>.  With qubits 10, 11, 12, bottom index 1 and two angles the control is
  qubit 12, not qubit 11 (which is the target).
\<close>

theorem multiplex_control_counterexample:
  "multiplex 3 [10::nat, 11, 12] RYGate 1 [4, 2] =
     Inr (CompositeGate ''multiplex2''
           [RYGate 3 11, CnotGate 12 11, RYGate 1 11, CnotGate 12 11]) \<and>
   CnotGate ([10::nat, 11, 12] ! (1 - 1 + 1)) ([10, 11, 12] ! 1) \<noteq> CnotGate 12 11"
proof -
  have "multiplex 3 [10::nat, 11, 12] RYGate 1 [4, 2] =
     Inr (CompositeGate ''multiplex2''
           [RYGate 3 11, CnotGate 12 11, RYGate 1 11, CnotGate 12 11])"
    by (subst multiplex_two_angles) (simp_all add: RYGate_def)
  then show ?thesis by (simp add: CnotGate_def)
qed

text \<open>
  C3, amended.  On an angle list of length \<open>2 ^ k\<close>, with the qubit at offset \<open>k + bottom\<close>
  among the qubit arguments: for \<open>k = 0\<close> the synthesizer returns the leaf rotation with
  the single angle on the target qubit.  For \<open>k \<ge> 1\<close> both recursive calls return, and
  the result is the composite of the recursion on the first half of the sum/difference
  split of the list, a CNOT leaf whose control is the qubit at offset \<open>k + bottom\<close> and
  whose target is the bottom qubit, the order-reversed recursion on the second half, and
  the trailing CNOT if the total qubit count is \<open>k + 1 + bottom\<close>.
\<close>

theorem multiplex_spec:
  assumes "length angles = 2 ^ k" and "k + bottom < length qs"
  shows "if k = 0 then multiplex n qs bg bottom angles = Inr (bg (angles ! 0) (qs ! bottom))
         else (\<exists>low high.
           multiplex n qs bg bottom (take (2 ^ (k - 1)) (sum_difference_split angles)) = Inr low \<and>
           multiplex n qs bg bottom (drop (2 ^ (k - 1)) (sum_difference_split angles)) = Inr high \<and>
           multiplex n qs bg bottom angles =
             Inr (CompositeGate (''multiplex'' @ str_nat (k + 1))
                   ([low, CnotGate (qs ! (k + bottom)) (qs ! bottom), reverse high] @
                    (if n = k + 1 + bottom
                     then [CnotGate (qs ! (k + bottom)) (qs ! bottom)] else []))))"
  using assms by (rule multiplex_structure)

theorem multiplex_spec_witness:
  "(\<exists>low high.
      multiplex 3 [0::nat, 1, 2] RYGate 0 (take (2 ^ (2 - 1)) (sum_difference_split [1, 2, 3, 4])) = Inr low \<and>
      multiplex 3 [0::nat, 1, 2] RYGate 0 (drop (2 ^ (2 - 1)) (sum_difference_split [1, 2, 3, 4])) = Inr high \<and>
      multiplex 3 [0::nat, 1, 2] RYGate 0 [1, 2, 3, 4] =
        Inr (CompositeGate (''multiplex'' @ str_nat (2 + 1))
              [low, CnotGate 2 0, reverse high, CnotGate 2 0])) \<and>
   multiplex 3 [0::nat, 1, 2] RYGate 0 [5] = Inr (RYGate 5 0)"
  using multiplex_spec [of "[1, 2, 3, 4]" 2 0 "[0::nat, 1, 2]" 3 RYGate]
    multiplex_spec [of "[5]" 0 0 "[0::nat, 1, 2]" 3 RYGate]
  by simp




text \<open>
  C5, as claimed: running the optimizer twice gives the tree of running it once.  This
  fails.  The double-CNOT pass leaves a composite childless when it deletes its last
  leaves, and a childless composite hides its two neighbours from each other.  Zero-rotation
  elimination of the second run drops the childless composite, and the cancellation loop
  then deletes the two CNOT leaves it had separated.
\<close>

theorem optimize_gates_twice_counterexample:
  "optimize_gates
     [CnotGate (0::nat) 1, CompositeGate ''sub'' [CnotGate 2 3, CnotGate 2 3], CnotGate 0 1]
     = Some (Inr [CnotGate 0 1, CompositeGate ''sub'' [], CnotGate 0 1]) \<and>
   optimize_gates [CnotGate (0::nat) 1, CompositeGate ''sub'' [], CnotGate 0 1] = Some (Inr []) \<and>
   [CnotGate (0::nat) 1, CompositeGate ''sub'' [], CnotGate 0 1] \<noteq> []"
  by code_simp

text \<open>
  C5, amended.  If a run of the optimizer returns a tree in which no composite child is
  childless, a second run returns that tree unchanged.
\<close>

theorem optimize_gates_twice:
  assumes "optimize_gates dat = Some (Inr dat1)" and "no_childless dat1"
  shows "optimize_gates dat1 = Some (Inr dat1)"
proof -
  from assms(1) obtain b dz where z: "remove_zero_rotations dat = Inr (b, dz)"
    and f: "cnot_fixpoint dz = Some (Inr dat1)"
    by (auto simp: optimize_gates_def split: sum.splits)
  from cnot_fixpoint_result [OF f]
  have c: "cancel_step\<^sup>*\<^sup>* (leaves dz) (leaves dat1)"
    and fx: "remove_double_cnots_once dat1 = Inr (False, dat1)" by simp_all
  from rzr_angle_kept [OF z] cancel_steps_set [OF c] have "list_all angle_kept (leaves dat1)"
    by (auto simp: list_all_iff)
  from rzr_fixed [OF assms(2) this] cnot_fixpoint_fixed [OF fx] show ?thesis
    by (simp add: optimize_gates_def)
qed

theorem optimize_gates_twice_witness:
  "optimize_gates
     [RZGate 0 (0::nat), CompositeGate ''sub'' [RYGate 1 0, CnotGate 1 0], CnotGate 1 0,
      CnotGate 2 0]
     = Some (Inr [CompositeGate ''sub'' [RYGate 1 0], CnotGate 2 0]) \<and>
   no_childless [CompositeGate ''sub'' [RYGate 1 (0::nat)], CnotGate 2 0] \<and>
   optimize_gates [CompositeGate ''sub'' [RYGate 1 (0::nat)], CnotGate 2 0]
     = Some (Inr [CompositeGate ''sub'' [RYGate 1 0], CnotGate 2 0])"
proof -
  have ev: "optimize_gates
     [RZGate 0 (0::nat), CompositeGate ''sub'' [RYGate 1 0, CnotGate 1 0], CnotGate 1 0,
      CnotGate 2 0]
     = Some (Inr [CompositeGate ''sub'' [RYGate 1 0], CnotGate 2 0])"
    by code_simp
  have nc: "no_childless [CompositeGate ''sub'' [RYGate 1 (0::nat)], CnotGate 2 0]"
    by (simp add: RYGate_def CnotGate_def)
  from optimize_gates_twice [OF ev nc] ev nc show ?thesis by blast
qed


text \<open>
  C6.  On a tree whose rotation leaves carry their angle, the zero-rotation elimination
  pass returns without raising.  The leaves of its result are the leaves of the input
  without the rotation leaves (names \<^verbatim>\<open>rz\<close>, \<^verbatim>\<open>ry\<close>, \<^verbatim>\<open>rx\<close>) whose angle has magnitude
  below \<open>EPS = 1e-10\<close>, in the same order and unchanged; in particular the CNOT leaves are
  the same before and after.  No composite child of the result is childless, and the flag
  returned says whether a leaf was deleted.
\<close>

theorem remove_zero_rotations_spec:
  assumes "well_formed dat"
  shows "\<exists>b dat'. remove_zero_rotations dat = Inr (b, dat') \<and>
           leaves dat' = filter (\<lambda>g. \<not> zero_rotation g) (leaves dat) \<and>
           filter (\<lambda>g. name g = ''cx'') (leaves dat') = filter (\<lambda>g. name g = ''cx'') (leaves dat) \<and>
           no_childless dat' \<and>
           b = list_ex zero_rotation (leaves dat)"
proof -
  from rzr_well_formed [OF assms] obtain b dat' where r: "remove_zero_rotations dat = Inr (b, dat')"
    by blast
  have "filter (\<lambda>g. name g = ''cx'') (filter (\<lambda>g. \<not> zero_rotation g) xs) = filter (\<lambda>g. name g = ''cx'') xs"
    for xs :: "'a gate_node list"
    by (induction xs) (auto simp: zero_rotation_def rotation_name_def)
  with rzr_leaves [OF r] rzr_no_childless [OF r] rzr_flag [OF r] r show ?thesis by simp
qed

theorem remove_zero_rotations_spec_witness:
  "well_formed [RZGate (1 / 10 ^ 11) (0::nat), CompositeGate ''sub'' [RYGate 0 0],
                CnotGate 1 0, RYGate (1 / 2) 0] \<and>
   remove_zero_rotations [RZGate (1 / 10 ^ 11) (0::nat), CompositeGate ''sub'' [RYGate 0 0],
                CnotGate 1 0, RYGate (1 / 2) 0] = Inr (True, [CnotGate 1 0, RYGate (1 / 2) 0]) \<and>
   (\<exists>b dat'. remove_zero_rotations [RZGate (1 / 10 ^ 11) (0::nat), CompositeGate ''sub'' [RYGate 0 0],
                CnotGate 1 0, RYGate (1 / 2) 0] = Inr (b, dat') \<and>
      leaves dat' = filter (\<lambda>g. \<not> zero_rotation g)
        (leaves [RZGate (1 / 10 ^ 11) (0::nat), CompositeGate ''sub'' [RYGate 0 0],
                CnotGate 1 0, RYGate (1 / 2) 0]) \<and>
      no_childless dat')"
proof -
  let ?dat = "[RZGate (1 / 10 ^ 11) (0::nat), CompositeGate ''sub'' [RYGate 0 0],
                CnotGate 1 0, RYGate (1 / 2) 0]"
  have wf: "well_formed ?dat"
    by (simp add: RZGate_def RYGate_def CnotGate_def rotation_name_def)
  have ev: "remove_zero_rotations ?dat = Inr (True, [CnotGate 1 0, RYGate (1 / 2) 0])"
    by (simp add: RZGate_def RYGate_def CnotGate_def chop_num_def EPS_def)
  from remove_zero_rotations_spec [OF wf] wf ev show ?thesis by blast
qed






text \<open>
  C8.  The double-CNOT cancellation loop is claimed to terminate and never to raise.  The
  loop does end on every tree (\<open>cnot_fixpoint_terminates\<close>: a pass that reports a deletion
  removes at least two leaves), but it can end by raising.  On three CNOT leaves with the
  same qubit arguments the pass deletes the last two leaves at index 1 and then, at index
  0, reads \<^verbatim>\<open>self.data[1]\<close>, which is gone: the pass raises \<^verbatim>\<open>IndexError\<close>, and so does
  \<^verbatim>\<open>optimize_gates\<close>.
\<close>

theorem remove_double_cnots_once_three_cnots_raises:
  "remove_double_cnots_once [CnotGate (0::nat) 1, CnotGate 0 1, CnotGate 0 1] = Inl IndexError
   \<and> optimize_gates [CnotGate (0::nat) 1, CnotGate 0 1, CnotGate 0 1] = Some (Inl IndexError)"
  by code_simp


text \<open>
  C9.  Whenever a double-CNOT cancellation pass returns, the leaf sequence of its result
  comes from the leaf sequence of the input by cancellations alone: each one deletes two
  neighbouring leaves named \<^verbatim>\<open>cx\<close> with identical qubit arguments.  All leaves with another
  name, the rotation leaves among them, are the same before and after, in the same order.
\<close>

theorem remove_double_cnots_once_frame:
  assumes "remove_double_cnots_once dat = Inr (b, dat')"
  shows "cancel_step\<^sup>*\<^sup>* (leaves dat) (leaves dat') \<and>
         filter (\<lambda>g. name g \<noteq> ''cx'') (leaves dat') = filter (\<lambda>g. name g \<noteq> ''cx'') (leaves dat)"
  using rdco_frame [OF assms] cancel_steps_filter by blast

theorem remove_double_cnots_once_frame_witness:
  "remove_double_cnots_once
     [CompositeGate ''sub'' [RZGate 1 (0::nat), CnotGate 1 0], CnotGate 1 0, RYGate 2 0]
     = Inr (True, [CompositeGate ''sub'' [RZGate 1 0], RYGate 2 0]) \<and>
   cancel_step\<^sup>*\<^sup>*
     (leaves [CompositeGate ''sub'' [RZGate 1 (0::nat), CnotGate 1 0], CnotGate 1 0, RYGate 2 0])
     (leaves [CompositeGate ''sub'' [RZGate 1 0], RYGate 2 0])"
proof -
  have ev: "remove_double_cnots_once
     [CompositeGate ''sub'' [RZGate 1 (0::nat), CnotGate 1 0], CnotGate 1 0, RYGate 2 0]
     = Inr (True, [CompositeGate ''sub'' [RZGate 1 0], RYGate 2 0])"
    by code_simp
  from remove_double_cnots_once_frame [OF ev] ev show ?thesis by blast
qed


text \<open>
  C10.  Constructing \<^verbatim>\<open>GlobalPhaseGate\<close> with an empty qubit list raises the error
  \<^verbatim>\<open>Need at least one qubit.\<close> whatever the parameters are, so before the checks of the
  parameter count and of the unit magnitude, and no gate is attached.  With at least one
  qubit the two other checks follow: a parameter list that does not hold exactly one
  entry raises the parameter count error, and a single entry whose magnitude is not close
  to 1 raises the magnitude error.
\<close>

theorem GlobalPhaseGate_no_qubits:
  "GlobalPhaseGate ps ([] :: 'q list) = Inl (QiskitError ''Need at least one qubit.'') \<and>
   (qs \<noteq> [] \<and> length ps \<noteq> 1 \<longrightarrow>
      GlobalPhaseGate ps (qs :: 'q list) =
        Inl (QiskitError ''Global Phase takes a list of one and only one parameter.'')) \<and>
   (qs \<noteq> [] \<and> length ps = 1 \<and> \<not> isclose (cmod (ps ! 0)) 1 (1 / 10 ^ 9) EPS \<longrightarrow>
      GlobalPhaseGate ps qs = Inl (QiskitError ''Phase not of unit length''))"
  by (simp add: GlobalPhaseGate_def)

theorem GlobalPhaseGate_no_qubits_witness:
  "GlobalPhaseGate [2, 1] ([] :: nat list) = Inl (QiskitError ''Need at least one qubit.'') \<and>
   GlobalPhaseGate [1, 1] [0::nat] =
     Inl (QiskitError ''Global Phase takes a list of one and only one parameter.'') \<and>
   GlobalPhaseGate [2] [0::nat] = Inl (QiskitError ''Phase not of unit length'')"
proof -
  have a: "[0::nat] \<noteq> [] \<and> length [1, 1 :: complex] \<noteq> 1" by simp
  have b: "[0::nat] \<noteq> [] \<and> length [2 :: complex] = 1 \<and>
           \<not> isclose (cmod ([2] ! 0)) 1 (1 / 10 ^ 9) EPS"
    by (simp add: isclose_def EPS_def)
  from GlobalPhaseGate_no_qubits [of "[2, 1]" "[0::nat]"]
    GlobalPhaseGate_no_qubits [of "[1, 1]" "[0::nat]"] a
    GlobalPhaseGate_no_qubits [of "[2]" "[0::nat]"] b
  show ?thesis by blast
qed

end
